theory Spec2Isabelle
  imports Complex_Main "HOL-Library.Word" "HOL-Library.Signed_Division"
begin

section \<open>The UCT player of FoolGo (src/player/uct\_player.h)\<close>

text \<open>
  This theory embeds the search of \<^verbatim>\<open>UctPlayer<BOARD_LEN>\<close>: \<^verbatim>\<open>Ucb\<close>,
  \<^verbatim>\<open>GetRegionRatio\<close>, \<^verbatim>\<open>MaxUcbChild\<close>, \<^verbatim>\<open>ModifyAverageProfitAndReturnNewProfit\<close>,
  \<^verbatim>\<open>SearchAndModifyNodes\<close> and \<^verbatim>\<open>BestChild\<close>.

  Conventions of the embedding.
  \<^item> The board (\<^verbatim>\<open>FullBoard\<close>), the playout engine (\<^verbatim>\<open>MonteCarloGame\<close>), \<^verbatim>\<open>NodeRecord\<close>
    and \<^verbatim>\<open>TranspositionTable\<close> are declared in headers that are not part of the file at
    hand. The board and the playout engine are a parameter of every function (a record of
    operations over an arbitrary board type); the node record and the table are modelled
    from their description.
  \<^item> C++ \<^verbatim>\<open>float\<close> and \<^verbatim>\<open>double\<close> arithmetic is idealised as arithmetic on \<^typ>\<open>real\<close>:
    rounding is not modelled. The one value that is not a number and that the code can
    compute, the UCB value for a sum of visits that is not positive, is the result \<open>None\<close>
    of \<open>Ucb\<close>.
  \<^item> \<^verbatim>\<open>std::atomic<int>\<close> (the playout counter) is a 32-bit word whose increment wraps;
    \<^verbatim>\<open>thread_index\<close> and \<^verbatim>\<open>thread_count_\<close> are integers with the truncating remainder
    of C++.
  \<^item> The visit count of a record is a natural number without an upper bound (the type of
    the field is declared in node\_record.h). \<^verbatim>\<open>int visited_count_sum\<close> of \<^verbatim>\<open>MaxUcbChild\<close>
    is a 32-bit word: an addition beyond the range wraps, as in the compiled code (C++
    leaves signed overflow undefined), and the sum is read as a signed number.
  \<^item> A failed \<^verbatim>\<open>assert\<close>, a remainder by zero, the read of a variable that was never
    assigned and the exhaustion of the recursion budget are values of the type \<open>error\<close>;
    every function that can reach one returns \<open>error + result\<close>.
  \<^item> The functions run sequentially (one worker at a time). The operations on the mutex
    and every write to shared data are recorded, newest first, in the field \<open>events\<close>
    of the state, so that properties of the locking discipline of one worker are
    properties of that list.
\<close>

subsection \<open>Data model\<close>

datatype force = BLACK_FORCE | WHITE_FORCE

type_synonym position_index = int

text \<open>\<^verbatim>\<open>Move(force, position_index)\<close>.\<close>

type_synonym move = "force \<times> position_index"

text \<open>
  The operations of \<^verbatim>\<open>FullBoard<BOARD_LEN>\<close> and of \<^verbatim>\<open>MonteCarloGame<BOARD_LEN>\<close> that the
  player calls. \<open>play\<close> is the free function \<^verbatim>\<open>Play(&board, index)\<close>, \<open>pass\<close> is
  \<^verbatim>\<open>FullBoard::Pass(force)\<close>; both return the board they leave behind. \<open>run_playout b s\<close>
  is the board held by \<^verbatim>\<open>MonteCarloGame(b, s)\<close> after \<^verbatim>\<open>Run()\<close>. \<open>board_len_square\<close> is
  \<^verbatim>\<open>BoardLenSquare<BOARD_LEN>()\<close> and \<open>position_index_pass\<close> is \<^verbatim>\<open>POSITION_INDEX_PASS\<close>.
\<close>

record 'b board_ops =
  next_force :: "'b \<Rightarrow> force"
  last_force :: "'b \<Rightarrow> force"
  playable_indexes :: "'b \<Rightarrow> force \<Rightarrow> position_index list"
  is_suicide :: "'b \<Rightarrow> move \<Rightarrow> bool"
  is_end :: "'b \<Rightarrow> bool"
  black_region :: "'b \<Rightarrow> int"
  board_len_square :: int
  position_index_pass :: position_index
  play :: "'b \<Rightarrow> position_index \<Rightarrow> 'b"
  pass :: "'b \<Rightarrow> force \<Rightarrow> 'b"
  run_playout :: "'b \<Rightarrow> 32 word \<Rightarrow> 'b"

text \<open>
  Modelled from the spec: \<^verbatim>\<open>NodeRecord\<close> (node\_record.h is missing). The statistics of
  one tree node: \<open>visits\<close>, a non-negative integer; \<open>average_profit\<close>, a real;
  \<open>in_search\<close>, a flag. The field names follow the accessors the player calls
  (\<^verbatim>\<open>GetVisitedTime\<close>, \<^verbatim>\<open>GetAverageProfit\<close>, \<^verbatim>\<open>IsInSearch\<close>).
\<close>

record node_record =
  visited_time :: nat
  average_profit :: real
  is_in_search :: bool

text \<open>
  Modelled from the spec: \<^verbatim>\<open>TranspositionTable\<close> (transposition\_table.h is missing). A
  mapping from board states to node records. \<^verbatim>\<open>Get(board)\<close> is the lookup,
  \<^verbatim>\<open>Insert(board, record)\<close> installs a record, and \<^verbatim>\<open>GetChild(board, move)\<close> is the record
  of the state reached by playing \<open>move\<close> on \<open>board\<close>, which agrees with
  \<^verbatim>\<open>Get\<close> of the board after the move. A \<^verbatim>\<open>NodeRecord *\<close> is the key of its entry: no
  entry is ever erased.
\<close>

type_synonym 'b transposition_table = "'b \<rightharpoonup> node_record"

definition get_child ::
  "'b board_ops \<Rightarrow> 'b transposition_table \<Rightarrow> 'b \<Rightarrow> position_index \<Rightarrow> node_record option" where
  "get_child ops tbl full_board position_index = tbl (play ops full_board position_index)"

text \<open>The members of \<^verbatim>\<open>UctPlayer\<close> that a search only reads, and its constructor.\<close>

record uct_player =
  seed :: "32 word"
  mc_game_count_per_move :: "32 word"
  thread_count :: int

definition UctPlayer :: "32 word \<Rightarrow> 32 word \<Rightarrow> int \<Rightarrow> uct_player" where
  "UctPlayer seed' mc_game_count_per_move' thread_count' =
     \<lparr>seed = seed', mc_game_count_per_move = mc_game_count_per_move',
      thread_count = thread_count'\<rparr>"

text \<open>
  What one worker does to the mutex and to shared data, and the playouts it constructs.
  \<open>ReadChildren b\<close> stands for the two loops of \<^verbatim>\<open>MaxUcbChild\<close> over the children of
  \<open>b\<close>.
\<close>

datatype 'b event =
    MutexLock
  | MutexUnlock
  | InsertRecord 'b node_record
  | WriteIsInSearch 'b bool
  | WriteAverageProfit 'b real
  | WriteVisitedTimes 'b nat
  | ConstructMonteCarloGame 'b "32 word"
  | ReadChildren 'b

text \<open>
  The state a search changes: \<^verbatim>\<open>transposition_table_\<close>, the counter behind
  \<^verbatim>\<open>mc_game_count_ptr\<close>, and the recorded events (newest first).
\<close>

record 'b search_state =
  table :: "'b transposition_table"
  mc_game_count :: "32 word"
  events :: "'b event list"

datatype error = AssertionFailed | DivisionByZero | UninitializedRead | InvalidPointer | OutOfFuel

subsection \<open>Ucb and GetRegionRatio\<close>

text \<open>
  \<^verbatim>\<open>Ucb\<close>. For a sum that is not positive the C++ \<^verbatim>\<open>log\<close> gives minus infinity (sum 0)
  or no number (negative sum), and in both cases \<^verbatim>\<open>sqrt\<close> and the addition give no number:
  the result \<open>None\<close>.
\<close>

definition Ucb :: "node_record \<Rightarrow> 32 word \<Rightarrow> error + real option" where
  "Ucb node_record visited_count_sum =
     (if \<not> visited_time node_record > 0 then Inl AssertionFailed
      else if sint visited_count_sum \<le> 0 then Inr None
      else Inr (Some (average_profit node_record
                      + sqrt (2 * ln (real_of_int (sint visited_count_sum))
                              / real (visited_time node_record)))))"

definition GetRegionRatio :: "'b board_ops \<Rightarrow> 'b \<Rightarrow> force \<Rightarrow> real" where
  "GetRegionRatio ops full_board force =
     (let black_region' = black_region ops full_board;
          black_ratio = real_of_int black_region' / real_of_int (board_len_square ops)
      in if force = BLACK_FORCE then black_ratio else 1 - black_ratio)"

subsection \<open>MaxUcbChild\<close>

text \<open>
  The first loop of \<^verbatim>\<open>MaxUcbChild\<close>: it collects the moves without a child record and,
  as long as it has found none, sums the visits of the children it meets.
\<close>

fun count_loop ::
  "'b board_ops \<Rightarrow> 'b transposition_table \<Rightarrow> 'b \<Rightarrow> position_index list
   \<Rightarrow> 32 word \<times> position_index list \<Rightarrow> 32 word \<times> position_index list" where
  "count_loop ops tbl full_board [] acc = acc"
| "count_loop ops tbl full_board (position_index # rest) (visited_count_sum, null_indexes) =
     (case get_child ops tbl full_board position_index of
        None \<Rightarrow> count_loop ops tbl full_board rest
                  (visited_count_sum, null_indexes @ [position_index])
      | Some node_record \<Rightarrow>
          if null_indexes = []
          then count_loop ops tbl full_board rest
                 (visited_count_sum + of_nat (visited_time node_record), null_indexes)
          else count_loop ops tbl full_board rest (visited_count_sum, null_indexes))"

text \<open>
  The second loop: the running maximum \<open>(max_ucb, max_ucb_index)\<close>. The comparison
  \<open>ucb > max_ucb\<close> is false when \<open>ucb\<close> is not a number.
\<close>

fun ucb_loop ::
  "'b board_ops \<Rightarrow> 'b transposition_table \<Rightarrow> 'b \<Rightarrow> 32 word \<Rightarrow> position_index list
   \<Rightarrow> real \<times> position_index \<Rightarrow> error + (real \<times> position_index)" where
  "ucb_loop ops tbl full_board visited_count_sum [] acc = Inr acc"
| "ucb_loop ops tbl full_board visited_count_sum (position_index # rest) (max_ucb, max_ucb_index) =
     (case get_child ops tbl full_board position_index of
        None \<Rightarrow> ucb_loop ops tbl full_board visited_count_sum rest (max_ucb, max_ucb_index)
      | Some node_record \<Rightarrow>
          if is_in_search node_record
          then ucb_loop ops tbl full_board visited_count_sum rest (max_ucb, max_ucb_index)
          else (case Ucb node_record visited_count_sum of
                  Inl e \<Rightarrow> Inl e
                | Inr None \<Rightarrow>
                    ucb_loop ops tbl full_board visited_count_sum rest (max_ucb, max_ucb_index)
                | Inr (Some ucb) \<Rightarrow>
                    if ucb > max_ucb
                       \<and> \<not> is_suicide ops full_board (next_force ops full_board, position_index)
                    then ucb_loop ops tbl full_board visited_count_sum rest (ucb, position_index)
                    else ucb_loop ops tbl full_board visited_count_sum rest
                           (max_ucb, max_ucb_index)))"

text \<open>
  The body of \<^verbatim>\<open>MaxUcbChild\<close>, which runs with the mutex held and only reads the table.
  \<open>index < null_indexes.size()\<close> compares an \<^verbatim>\<open>int\<close> with a \<^verbatim>\<open>size_t\<close>: a negative
  \<open>index\<close> converts to a value above every size.
\<close>

definition index_in_range :: "int \<Rightarrow> 'a list \<Rightarrow> bool" where
  "index_in_range index xs \<longleftrightarrow> 0 \<le> index \<and> index < int (length xs)"

definition max_ucb_child_body ::
  "'b board_ops \<Rightarrow> uct_player \<Rightarrow> 'b transposition_table \<Rightarrow> 'b \<Rightarrow> int
   \<Rightarrow> error + position_index" where
  "max_ucb_child_body ops player tbl full_board thread_index =
     (let current_force = next_force ops full_board;
          playable_index_vector = playable_indexes ops full_board current_force
      in if playable_index_vector = [] then Inl AssertionFailed
         else
           let (visited_count_sum, null_indexes) =
                 count_loop ops tbl full_board playable_index_vector (0, [])
           in if null_indexes \<noteq> []
              then if thread_count player = 0 then Inl DivisionByZero
                   else
                     let index = thread_index smod thread_count player
                     in if index_in_range index null_indexes
                        then Inr (null_indexes ! nat index)
                        else Inr (null_indexes !
                                    (if index_in_range index null_indexes then nat index else 0))
              else (case ucb_loop ops tbl full_board visited_count_sum playable_index_vector
                           (- 1, position_index_pass ops) of
                      Inl e \<Rightarrow> Inl e
                    | Inr (max_ucb, max_ucb_index) \<Rightarrow> Inr max_ucb_index))"

definition emit :: "'b event \<Rightarrow> 'b search_state \<Rightarrow> 'b search_state" where
  "emit e st = st\<lparr>events := e # events st\<rparr>"

text \<open>
  \<^verbatim>\<open>MaxUcbChild\<close>: the body between the construction and the destruction of the lock
  guard.
\<close>

definition MaxUcbChild ::
  "'b board_ops \<Rightarrow> uct_player \<Rightarrow> 'b \<Rightarrow> int \<Rightarrow> 'b search_state
   \<Rightarrow> error + (position_index \<times> 'b search_state)" where
  "MaxUcbChild ops player full_board thread_index st =
     (let st1 = emit (ReadChildren full_board) (emit MutexLock st)
      in case max_ucb_child_body ops player (table st1) full_board thread_index of
           Inl e \<Rightarrow> Inl e
         | Inr max_ucb_index \<Rightarrow> Inr (max_ucb_index, emit MutexUnlock st1))"

subsection \<open>Writes to the table and to a record behind a pointer\<close>

definition update_record ::
  "'b \<Rightarrow> (node_record \<Rightarrow> node_record) \<Rightarrow> 'b transposition_table \<Rightarrow> 'b transposition_table" where
  "update_record key f tbl = (case tbl key of None \<Rightarrow> tbl | Some r \<Rightarrow> tbl(key \<mapsto> f r))"

definition Insert :: "'b \<Rightarrow> node_record \<Rightarrow> 'b search_state \<Rightarrow> 'b search_state" where
  "Insert full_board node_record st =
     emit (InsertRecord full_board node_record)
       (st\<lparr>table := (table st)(full_board \<mapsto> node_record)\<rparr>)"

definition SetIsInSearch :: "'b \<Rightarrow> bool \<Rightarrow> 'b search_state \<Rightarrow> 'b search_state" where
  "SetIsInSearch key v st =
     emit (WriteIsInSearch key v)
       (st\<lparr>table := update_record key (\<lambda>r. r\<lparr>is_in_search := v\<rparr>) (table st)\<rparr>)"

definition SetAverageProfit :: "'b \<Rightarrow> real \<Rightarrow> 'b search_state \<Rightarrow> 'b search_state" where
  "SetAverageProfit key v st =
     emit (WriteAverageProfit key v)
       (st\<lparr>table := update_record key (\<lambda>r. r\<lparr>average_profit := v\<rparr>) (table st)\<rparr>)"

definition SetVisitedTimes :: "'b \<Rightarrow> nat \<Rightarrow> 'b search_state \<Rightarrow> 'b search_state" where
  "SetVisitedTimes key v st =
     emit (WriteVisitedTimes key v)
       (st\<lparr>table := update_record key (\<lambda>r. r\<lparr>visited_time := v\<rparr>) (table st)\<rparr>)"

text \<open>
  \<^verbatim>\<open>mutex_.lock(); node_record_ptr->SetIsInSearch(v); mutex_.unlock();\<close> (lines 203 to
  205, and the guarded block of lines 232 to 235).
\<close>

definition locked_set_is_in_search :: "'b \<Rightarrow> bool \<Rightarrow> 'b search_state \<Rightarrow> 'b search_state" where
  "locked_set_is_in_search key v st =
     emit MutexUnlock (SetIsInSearch key v (emit MutexLock st))"

text \<open>\<^verbatim>\<open>++(*mc_game_count_ptr)\<close>.\<close>

definition increment_mc_game_count :: "'b search_state \<Rightarrow> 'b search_state" where
  "increment_mc_game_count st = st\<lparr>mc_game_count := mc_game_count st + 1\<rparr>"

subsection \<open>ModifyAverageProfitAndReturnNewProfit\<close>

text \<open>
  Lines 211 to 218: the board the recursion continues on. A side without a playable
  index passes; otherwise the move of \<^verbatim>\<open>MaxUcbChild\<close> is played.
\<close>

definition pass_or_play_max_ucb_child ::
  "'b board_ops \<Rightarrow> uct_player \<Rightarrow> 'b \<Rightarrow> int \<Rightarrow> 'b search_state
   \<Rightarrow> error + ('b \<times> 'b search_state)" where
  "pass_or_play_max_ucb_child ops player full_board thread_index st =
     (if playable_indexes ops full_board (next_force ops full_board) = []
      then Inr (pass ops full_board (next_force ops full_board), st)
      else (case MaxUcbChild ops player full_board thread_index st of
              Inl e \<Rightarrow> Inl e
            | Inr (max_ucb_index, st1) \<Rightarrow> Inr (play ops full_board max_ucb_index, st1)))"

text \<open>
  The recursion of the source follows the game and need not end on an arbitrary board
  type, so the function takes a budget of nested calls: \<open>Inl OutOfFuel\<close> says that the
  budget did not suffice. \<open>full_board\<close> is the board on entry; it is the key of the record
  \<^verbatim>\<open>node_record_ptr\<close> points to, also after \<^verbatim>\<open>Play\<close> or \<^verbatim>\<open>Pass\<close> has changed the
  caller's board object. Reading through the pointer is a lookup of that key in the
  current table. After the recursive call the source reads the visits of the record for
  the new average (lines 223 to 225) and again for the increment (line 229); only the
  average is written in between, so the model reads the record once.
\<close>

fun ModifyAverageProfitAndReturnNewProfit ::
  "nat \<Rightarrow> 'b board_ops \<Rightarrow> uct_player \<Rightarrow> int \<Rightarrow> 'b \<Rightarrow> 'b search_state
   \<Rightarrow> error + (real \<times> 'b search_state)" where
  "ModifyAverageProfitAndReturnNewProfit 0 ops player thread_index full_board st = Inl OutOfFuel"
| "ModifyAverageProfitAndReturnNewProfit (Suc fuel) ops player thread_index full_board st =
     (case table st full_board of
        None \<Rightarrow>
          let st1 = emit (ConstructMonteCarloGame full_board (seed player)) st;
              playout_board = (if \<not> is_end ops full_board
                               then run_playout ops full_board (seed player)
                               else full_board);
              st2 = increment_mc_game_count st1;
              force = last_force ops full_board;
              new_profit = GetRegionRatio ops playout_board force;
              node_record = \<lparr>visited_time = 1, average_profit = new_profit,
                             is_in_search = False\<rparr>
          in Inr (new_profit, Insert full_board node_record st2)
      | Some _ \<Rightarrow>
          let st1 = locked_set_is_in_search full_board True st
          in if is_end ops full_board
             then
               let st2 = increment_mc_game_count st1
               in (case table st2 full_board of
                     None \<Rightarrow> Inl InvalidPointer
                   | Some node_record \<Rightarrow>
                       let new_profit = average_profit node_record;
                           st3 = SetVisitedTimes full_board (visited_time node_record + 1) st2
                       in Inr (new_profit, locked_set_is_in_search full_board False st3))
             else
               (case pass_or_play_max_ucb_child ops player full_board thread_index st1 of
                  Inl e \<Rightarrow> Inl e
                | Inr (next_board, st2) \<Rightarrow>
                    (case ModifyAverageProfitAndReturnNewProfit fuel ops player thread_index
                            next_board st2 of
                       Inl e \<Rightarrow> Inl e
                     | Inr (child_profit, st3) \<Rightarrow>
                         let new_profit = 1 - child_profit
                         in (case table st3 full_board of
                               None \<Rightarrow> Inl InvalidPointer
                             | Some node_record \<Rightarrow>
                                 let previous_profit = average_profit node_record;
                                     modified_profit =
                                       (previous_profit * real (visited_time node_record)
                                        + new_profit)
                                       / real (visited_time node_record + 1);
                                     st4 = SetAverageProfit full_board modified_profit st3;
                                     st5 = SetVisitedTimes full_board
                                             (visited_time node_record + 1) st4
                                 in Inr (new_profit,
                                         locked_set_is_in_search full_board False st5)))))"

subsection \<open>SearchAndModifyNodes\<close>

text \<open>
  The loop of one worker. The budget bounds the number of iterations and the depth of
  each descent.
\<close>

fun SearchAndModifyNodes ::
  "nat \<Rightarrow> 'b board_ops \<Rightarrow> uct_player \<Rightarrow> 'b \<Rightarrow> int \<Rightarrow> 'b search_state
   \<Rightarrow> error + 'b search_state" where
  "SearchAndModifyNodes 0 ops player full_board thread_index st = Inl OutOfFuel"
| "SearchAndModifyNodes (Suc fuel) ops player full_board thread_index st =
     (if mc_game_count st <s mc_game_count_per_move player
      then (case MaxUcbChild ops player full_board thread_index st of
              Inl e \<Rightarrow> Inl e
            | Inr (max_ucb_index, st1) \<Rightarrow>
                let max_ucb_child = play ops full_board max_ucb_index
                in (case ModifyAverageProfitAndReturnNewProfit fuel ops player thread_index
                           max_ucb_child st1 of
                      Inl e \<Rightarrow> Inl e
                    | Inr (new_profit, st2) \<Rightarrow>
                        SearchAndModifyNodes fuel ops player full_board thread_index st2))
      else Inr st)"

subsection \<open>BestChild\<close>

text \<open>
  The loop of \<^verbatim>\<open>BestChild\<close>. \<open>most_visited_index\<close> has no initial value in the source:
  it is \<open>None\<close> until the loop assigns it.
\<close>

fun best_child_loop ::
  "'b board_ops \<Rightarrow> 'b transposition_table \<Rightarrow> 'b \<Rightarrow> position_index list
   \<Rightarrow> int \<times> position_index option \<Rightarrow> error + (int \<times> position_index option)" where
  "best_child_loop ops tbl full_board [] acc = Inr acc"
| "best_child_loop ops tbl full_board (index # rest) (max_visited_count, most_visited_index) =
     (case get_child ops tbl full_board index of
        None \<Rightarrow> Inl AssertionFailed
      | Some node_record \<Rightarrow>
          if int (visited_time node_record) > max_visited_count
          then best_child_loop ops tbl full_board rest
                 (int (visited_time node_record), Some index)
          else best_child_loop ops tbl full_board rest (max_visited_count, most_visited_index))"

definition BestChild ::
  "'b board_ops \<Rightarrow> 'b transposition_table \<Rightarrow> 'b \<Rightarrow> error + position_index" where
  "BestChild ops tbl full_board =
     (let force = next_force ops full_board;
          playable_index_vector = playable_indexes ops full_board force
      in case best_child_loop ops tbl full_board playable_index_vector (- 1, None) of
           Inl e \<Rightarrow> Inl e
         | Inr (max_visited_count, None) \<Rightarrow> Inl UninitializedRead
         | Inr (max_visited_count, Some most_visited_index) \<Rightarrow> Inr most_visited_index)"

subsection \<open>A small board for closed instances\<close>

text \<open>
  A stand-in for \<^verbatim>\<open>FullBoard\<close> on four points, used where a statement is evaluated on
  concrete data. A position is the list of the indices played so far, newest first; black
  moves first; a point is playable while nobody has taken it; the game is over after two
  moves; black's region is the number of the points 0 and 1 that are taken; index 3 is
  suicide; a playout takes the free points in ascending order until the game is over.
\<close>

type_synonym demo_board = "int list"

definition demo_ops :: "demo_board board_ops" where
  "demo_ops =
     \<lparr>next_force = (\<lambda>b. if even (length b) then BLACK_FORCE else WHITE_FORCE),
      last_force = (\<lambda>b. if even (length b) then WHITE_FORCE else BLACK_FORCE),
      playable_indexes = (\<lambda>b f. filter (\<lambda>i. i \<notin> set b) [0, 1, 2, 3]),
      is_suicide = (\<lambda>b (f, i). i = 3),
      is_end = (\<lambda>b. 2 \<le> length b),
      black_region = (\<lambda>b. int (length (filter (\<lambda>i. i \<in> set b) [0, 1]))),
      board_len_square = 4,
      position_index_pass = - 1,
      play = (\<lambda>b i. i # b),
      pass = (\<lambda>b f. (- 1) # b),
      run_playout =
        (\<lambda>b s. rev (take (2 - length b) (filter (\<lambda>i. i \<notin> set b) [0, 1, 2, 3])) @ b)\<rparr>"

text \<open>The state at the start of a search on an empty table: the counter is 0.\<close>

definition initial_state :: "'b search_state" where
  "initial_state = \<lparr>table = Map.empty, mc_game_count = 0, events = []\<rparr>"

subsection \<open>Notions the statements below use\<close>

text \<open>
  The moves of the parent whose child record is absent, in the order of the parent's
  playable indexes.
\<close>

definition unknown_children ::
  "'b board_ops \<Rightarrow> 'b transposition_table \<Rightarrow> 'b \<Rightarrow> position_index list" where
  "unknown_children ops tbl full_board =
     filter (\<lambda>m. get_child ops tbl full_board m = None)
       (playable_indexes ops full_board (next_force ops full_board))"

text \<open>The visit count of the child behind a move (0 when there is no record).\<close>

definition child_visits ::
  "'b board_ops \<Rightarrow> 'b transposition_table \<Rightarrow> 'b \<Rightarrow> position_index \<Rightarrow> nat" where
  "child_visits ops tbl full_board m =
     (case get_child ops tbl full_board m of None \<Rightarrow> 0 | Some r \<Rightarrow> visited_time r)"




text \<open>Whether the worker holds the mutex after a list of events (newest first).\<close>

fun mutex_held :: "'b event list \<Rightarrow> bool" where
  "mutex_held [] = False"
| "mutex_held (MutexLock # es) = True"
| "mutex_held (MutexUnlock # es) = False"
| "mutex_held (e # es) = mutex_held es"

text \<open>An insertion into the table or a write to a field of a record.\<close>

fun is_mutation :: "'b event \<Rightarrow> bool" where
  "is_mutation (InsertRecord b r) = True"
| "is_mutation (WriteIsInSearch b v) = True"
| "is_mutation (WriteAverageProfit b v) = True"
| "is_mutation (WriteVisitedTimes b v) = True"
| "is_mutation e = False"

text \<open>Every insertion and every write to a record happens while the mutex is held.\<close>

fun all_mutations_locked :: "'b event list \<Rightarrow> bool" where
  "all_mutations_locked [] = True"
| "all_mutations_locked (e # es) =
     ((if is_mutation e then mutex_held es else True) \<and> all_mutations_locked es)"

text \<open>
  The writes of an average profit that happen while the mutex is not held, oldest first:
  the record written and the value.
\<close>

fun unlocked_average_writes :: "'b event list \<Rightarrow> ('b \<times> real) list" where
  "unlocked_average_writes [] = []"
| "unlocked_average_writes (WriteAverageProfit b v # es) =
     (if mutex_held es then unlocked_average_writes es
      else unlocked_average_writes es @ [(b, v)])"
| "unlocked_average_writes (e # es) = unlocked_average_writes es"

text \<open>A profit between 0 and 1, and an event that stores only such profits.\<close>

definition profit_in_range :: "real \<Rightarrow> bool" where
  "profit_in_range x \<longleftrightarrow> 0 \<le> x \<and> x \<le> 1"

fun event_profit_in_range :: "'b event \<Rightarrow> bool" where
  "event_profit_in_range (InsertRecord b r) = profit_in_range (average_profit r)"
| "event_profit_in_range (WriteAverageProfit b v) = profit_in_range v"
| "event_profit_in_range e = True"

text \<open>
  A table that holds a record for the finished position \<open>[1, 0]\<close>, at the start of a
  search.
\<close>

definition demo_terminal_state :: "demo_board search_state" where
  "demo_terminal_state =
     \<lparr>table = [[1, 0] \<mapsto> \<lparr>visited_time = 1, average_profit = 1 / 2, is_in_search = False\<rparr>],
      mc_game_count = 0, events = []\<rparr>"

text \<open>
  A table that holds a record for the position \<open>[0]\<close> only, one playout into a search.
\<close>

definition demo_child_state :: "demo_board search_state" where
  "demo_child_state =
     \<lparr>table = [[0] \<mapsto> \<lparr>visited_time = 1, average_profit = 1 / 4, is_in_search = False\<rparr>],
      mc_game_count = 1, events = []\<rparr>"

text \<open>
  A table that holds the records of the four children of the empty position: the child
  behind move 0 is in search, the children behind the moves 1 and 2 have 3 visits each,
  and move 3 is suicide.
\<close>

definition demo_root_state :: "demo_board search_state" where
  "demo_root_state =
     \<lparr>table = [[0] \<mapsto> \<lparr>visited_time = 1, average_profit = 1 / 2, is_in_search = True\<rparr>,
               [1] \<mapsto> \<lparr>visited_time = 3, average_profit = 1 / 4, is_in_search = False\<rparr>,
               [2] \<mapsto> \<lparr>visited_time = 3, average_profit = 1 / 2, is_in_search = False\<rparr>,
               [3] \<mapsto> \<lparr>visited_time = 2, average_profit = 3 / 4, is_in_search = False\<rparr>],
      mc_game_count = 9, events = []\<rparr>"


text \<open>
  The first of the most visited children: every move before \<open>m\<close> in the list has fewer
  visits than \<open>m\<close>, and no move after it has more.
\<close>

definition first_most_visited ::
  "'b board_ops \<Rightarrow> 'b transposition_table \<Rightarrow> 'b \<Rightarrow> position_index list \<Rightarrow> position_index \<Rightarrow> bool" where
  "first_most_visited ops tbl b ms m \<longleftrightarrow>
     (\<exists>pre post. ms = pre @ m # post
        \<and> (\<forall>x\<in>set pre. child_visits ops tbl b x < child_visits ops tbl b m)
        \<and> (\<forall>x\<in>set post. child_visits ops tbl b x \<le> child_visits ops tbl b m))"


text \<open>
  What the player relies on for the region count of the board: the square of the side
  length is positive and black's region lies between 0 and that square.
\<close>

definition region_within_board :: "'b board_ops \<Rightarrow> bool" where
  "region_within_board ops \<longleftrightarrow>
     0 < board_len_square ops
     \<and> (\<forall>b. 0 \<le> black_region ops b \<and> black_region ops b \<le> board_len_square ops)"

text \<open>
  Every average profit in the table, and every average profit that an event has stored,
  lies between 0 and 1.
\<close>

definition profits_in_range :: "'b search_state \<Rightarrow> bool" where
  "profits_in_range st \<longleftrightarrow>
     (\<forall>b r. table st b = Some r \<longrightarrow> profit_in_range (average_profit r))
     \<and> list_all event_profit_in_range (events st)"

text \<open>
  Every playout that the events construct has the seed \<open>s\<close>.
\<close>

definition seeds_fixed :: "32 word \<Rightarrow> 'b event list \<Rightarrow> bool" where
  "seeds_fixed s es \<longleftrightarrow> (\<forall>b s'. ConstructMonteCarloGame b s' \<in> set es \<longrightarrow> s' = s)"

section \<open>Basic facts\<close>

lemma count_loop_nulls:
  "snd (count_loop ops tbl b ms (s, ns)) = ns @ filter (\<lambda>m. get_child ops tbl b m = None) ms"
  by (induction ms arbitrary: s ns) (auto split: option.splits)

lemma count_loop_unknown:
  "snd (count_loop ops tbl b (playable_indexes ops b (next_force ops b)) (0, []))
   = unknown_children ops tbl b"
  by (simp add: count_loop_nulls unknown_children_def)

lemma max_ucb_child_body_unknown:
  assumes "unknown_children ops tbl b \<noteq> []" and "thread_count player \<noteq> 0"
  shows "max_ucb_child_body ops player tbl b tid =
           Inr (unknown_children ops tbl b !
                  (if index_in_range (tid smod thread_count player) (unknown_children ops tbl b)
                   then nat (tid smod thread_count player) else 0))"
proof -
  have ne: "playable_indexes ops b (next_force ops b) \<noteq> []"
    using assms(1) by (auto simp: unknown_children_def)
  obtain s ns where c: "count_loop ops tbl b (playable_indexes ops b (next_force ops b)) (0, []) = (s, ns)"
    by (cases "count_loop ops tbl b (playable_indexes ops b (next_force ops b)) (0, [])") auto
  have ns: "ns = unknown_children ops tbl b"
    using count_loop_unknown [of ops tbl b] c by simp
  show ?thesis
    using ne assms c ns by (simp add: max_ucb_child_body_def Let_def)
qed

lemma MaxUcbChild_unknown:
  assumes "unknown_children ops (table st) b \<noteq> []" and "thread_count player \<noteq> 0"
  shows "MaxUcbChild ops player b tid st =
           Inr (unknown_children ops (table st) b !
                  (if index_in_range (tid smod thread_count player) (unknown_children ops (table st) b)
                   then nat (tid smod thread_count player) else 0),
                emit MutexUnlock (emit (ReadChildren b) (emit MutexLock st)))"
  using max_ucb_child_body_unknown [OF assms, of tid]
  by (simp add: MaxUcbChild_def Let_def emit_def)

lemmas demo_defs = demo_ops_def initial_state_def UctPlayer_def
lemmas prim_defs = emit_def Insert_def SetIsInSearch_def SetAverageProfit_def SetVisitedTimes_def
  locked_set_is_in_search_def increment_mc_game_count_def update_record_def

lemma visit_absent:
  assumes "table st b = None"
  shows "ModifyAverageProfitAndReturnNewProfit (Suc n) ops pl tid b st =
    Inr (GetRegionRatio ops (if is_end ops b then b else run_playout ops b (seed pl)) (last_force ops b),
         Insert b \<lparr>visited_time = 1,
                   average_profit = GetRegionRatio ops
                      (if is_end ops b then b else run_playout ops b (seed pl)) (last_force ops b),
                   is_in_search = False\<rparr>
           (increment_mc_game_count (emit (ConstructMonteCarloGame b (seed pl)) st)))"
  using assms by (simp add: Let_def)

lemma table_locked_set [simp]:
  "table (locked_set_is_in_search b v st) = update_record b (\<lambda>r. r\<lparr>is_in_search := v\<rparr>) (table st)"
  by (simp add: locked_set_is_in_search_def SetIsInSearch_def emit_def)

lemma table_increment [simp]: "table (increment_mc_game_count st) = table st"
  by (simp add: increment_mc_game_count_def)

lemma table_emit [simp]: "table (emit e st) = table st"
  by (simp add: emit_def)

lemma table_SetVisitedTimes [simp]:
  "table (SetVisitedTimes b v st) = update_record b (\<lambda>r. r\<lparr>visited_time := v\<rparr>) (table st)"
  by (simp add: SetVisitedTimes_def)

lemma table_SetAverageProfit [simp]:
  "table (SetAverageProfit b v st) = update_record b (\<lambda>r. r\<lparr>average_profit := v\<rparr>) (table st)"
  by (simp add: SetAverageProfit_def)

lemma table_Insert [simp]: "table (Insert b r st) = (table st)(b \<mapsto> r)"
  by (simp add: Insert_def)

lemma update_record_apply:
  "update_record k f tbl k' = (if k' = k then map_option f (tbl k) else tbl k')"
  by (simp add: update_record_def split: option.splits)

lemma visit_terminal:
  assumes "table st b = Some r" and "is_end ops b"
  shows "ModifyAverageProfitAndReturnNewProfit (Suc n) ops pl tid b st =
    Inr (average_profit r,
         locked_set_is_in_search b False
           (SetVisitedTimes b (visited_time r + 1)
              (increment_mc_game_count (locked_set_is_in_search b True st))))"
  using assms by (simp add: Let_def update_record_apply)

lemma visit_descend:
  assumes "table st b = Some r0" and "\<not> is_end ops b"
  shows "ModifyAverageProfitAndReturnNewProfit (Suc n) ops pl tid b st =
    (case pass_or_play_max_ucb_child ops pl b tid (locked_set_is_in_search b True st) of
       Inl e \<Rightarrow> Inl e
     | Inr (nb, st2) \<Rightarrow>
        (case ModifyAverageProfitAndReturnNewProfit n ops pl tid nb st2 of
           Inl e \<Rightarrow> Inl e
         | Inr (cp, st3) \<Rightarrow>
            (case table st3 b of
               None \<Rightarrow> Inl InvalidPointer
             | Some r \<Rightarrow>
                 Inr (1 - cp,
                      locked_set_is_in_search b False
                        (SetVisitedTimes b (visited_time r + 1)
                           (SetAverageProfit b
                              ((average_profit r * real (visited_time r) + (1 - cp))
                               / real (visited_time r + 1)) st3))))))"
  using assms by (simp add: Let_def split: sum.splits prod.splits option.splits)

declare ModifyAverageProfitAndReturnNewProfit.simps(2) [simp del]

lemma visit_Suc_cases [consumes 1, case_names absent terminal descend]:
  assumes "ModifyAverageProfitAndReturnNewProfit (Suc n) ops pl tid b st = Inr (p, st')"
  obtains
    "table st b = None"
    "p = GetRegionRatio ops (if is_end ops b then b else run_playout ops b (seed pl)) (last_force ops b)"
    "st' = Insert b \<lparr>visited_time = 1, average_profit = p, is_in_search = False\<rparr>
             (increment_mc_game_count (emit (ConstructMonteCarloGame b (seed pl)) st))"
  | r where "table st b = Some r" "is_end ops b" "p = average_profit r"
    "st' = locked_set_is_in_search b False
             (SetVisitedTimes b (visited_time r + 1)
                (increment_mc_game_count (locked_set_is_in_search b True st)))"
  | r0 nb st2 cp st3 r where "table st b = Some r0" "\<not> is_end ops b"
    "pass_or_play_max_ucb_child ops pl b tid (locked_set_is_in_search b True st) = Inr (nb, st2)"
    "ModifyAverageProfitAndReturnNewProfit n ops pl tid nb st2 = Inr (cp, st3)"
    "table st3 b = Some r" "p = 1 - cp"
    "st' = locked_set_is_in_search b False
             (SetVisitedTimes b (visited_time r + 1)
                (SetAverageProfit b
                   ((average_profit r * real (visited_time r) + (1 - cp))
                    / real (visited_time r + 1)) st3))"
proof (cases "table st b")
  case None
  with assms that(1) show ?thesis
    by (simp only: visit_absent [OF None]) auto
next
  case (Some r0)
  show ?thesis
  proof (cases "is_end ops b")
    case True
    with assms Some that(2) show ?thesis
      by (simp only: visit_terminal [OF Some True]) auto
  next
    case False
    with assms Some that(3) [OF Some False] show ?thesis
      by (simp only: visit_descend [OF Some False])
         (auto split: sum.splits prod.splits option.splits)
  qed
qed


lemma MaxUcbChild_state:
  assumes "MaxUcbChild ops pl b tid st = Inr (m, st1)"
  shows "st1 = emit MutexUnlock (emit (ReadChildren b) (emit MutexLock st))"
  using assms by (auto simp: MaxUcbChild_def Let_def split: sum.splits)

lemma pass_or_play_state:
  assumes "pass_or_play_max_ucb_child ops pl b tid st = Inr (nb, st2)"
  shows "st2 = st \<or> st2 = emit MutexUnlock (emit (ReadChildren b) (emit MutexLock st))"
  using assms
  by (auto simp: pass_or_play_max_ucb_child_def split: if_splits sum.splits prod.splits
      dest: MaxUcbChild_state)

lemma pass_or_play_table:
  assumes "pass_or_play_max_ucb_child ops pl b tid st = Inr (nb, st2)"
  shows "table st2 = table st"
  using pass_or_play_state [OF assms] by auto

lemma count_emit [simp]: "mc_game_count (emit e st) = mc_game_count st"
  by (simp add: emit_def)

lemma count_increment [simp]: "mc_game_count (increment_mc_game_count st) = mc_game_count st + 1"
  by (simp add: increment_mc_game_count_def)

lemma count_locked_set [simp]: "mc_game_count (locked_set_is_in_search b v st) = mc_game_count st"
  by (simp add: locked_set_is_in_search_def SetIsInSearch_def emit_def)

lemma count_SetVisitedTimes [simp]: "mc_game_count (SetVisitedTimes b v st) = mc_game_count st"
  by (simp add: SetVisitedTimes_def)

lemma count_SetAverageProfit [simp]: "mc_game_count (SetAverageProfit b v st) = mc_game_count st"
  by (simp add: SetAverageProfit_def)

lemma count_Insert [simp]: "mc_game_count (Insert b r st) = mc_game_count st"
  by (simp add: Insert_def)

lemma pass_or_play_count:
  assumes "pass_or_play_max_ucb_child ops pl b tid st = Inr (nb, st2)"
  shows "mc_game_count st2 = mc_game_count st"
  using pass_or_play_state [OF assms] by auto

lemma visit_count:
  "ModifyAverageProfitAndReturnNewProfit n ops pl tid b st = Inr (p, st')
   \<Longrightarrow> mc_game_count st' = mc_game_count st + 1"
proof (induction n arbitrary: b st p st')
  case 0
  then show ?case by simp
next
  case (Suc n)
  from Suc.prems show ?case
  proof (cases rule: visit_Suc_cases)
    case absent
    then show ?thesis by simp
  next
    case (terminal r)
    then show ?thesis by simp
  next
    case (descend r0 nb st2 cp st3 r)
    from Suc.IH [OF descend(4)] pass_or_play_count [OF descend(3)] descend(7)
    show ?thesis by simp
  qed
qed

lemma visit_table_mono:
  "ModifyAverageProfitAndReturnNewProfit n ops pl tid b st = Inr (p, st')
   \<Longrightarrow> table st k = Some r
   \<Longrightarrow> \<exists>r'. table st' k = Some r' \<and> visited_time r \<le> visited_time r'"
proof (induction n arbitrary: b st p st' r)
  case 0
  then show ?case by simp
next
  case (Suc n)
  from Suc.prems(1) show ?case
  proof (cases rule: visit_Suc_cases)
    case absent
    with Suc.prems(2) show ?thesis by auto
  next
    case (terminal r1)
    with Suc.prems(2) show ?thesis by (auto simp: update_record_apply)
  next
    case (descend r0 nb st2 cp st3 r1)
    have "\<exists>r2. table st2 k = Some r2 \<and> visited_time r2 = visited_time r"
      using pass_or_play_table [OF descend(3)] Suc.prems(2)
      by (auto simp: update_record_apply)
    then obtain r2 where r2: "table st2 k = Some r2" "visited_time r2 = visited_time r"
      by blast
    from Suc.IH [OF descend(4) r2(1)] obtain r3 where
      r3: "table st3 k = Some r3" "visited_time r2 \<le> visited_time r3" by blast
    with r2 descend(5,7) show ?thesis
      by (auto simp: update_record_apply)
  qed
qed

lemma visit_present:
  "ModifyAverageProfitAndReturnNewProfit n ops pl tid b st = Inr (p, st')
   \<Longrightarrow> table st' b \<noteq> None"
proof (cases n)
  case 0
  assume "ModifyAverageProfitAndReturnNewProfit n ops pl tid b st = Inr (p, st')"
  with 0 show ?thesis by simp
next
  case (Suc m)
  assume a: "ModifyAverageProfitAndReturnNewProfit n ops pl tid b st = Inr (p, st')"
  show ?thesis
  proof (cases "table st b")
    case None
    from a Suc show ?thesis
      unfolding Suc visit_absent [OF None] by auto
  next
    case (Some r)
    from visit_table_mono [OF a Some] show ?thesis by auto
  qed
qed

lemma visit_visits_pos:
  "ModifyAverageProfitAndReturnNewProfit n ops pl tid b st = Inr (p, st')
   \<Longrightarrow> (\<forall>k r. table st k = Some r \<longrightarrow> 1 \<le> visited_time r)
   \<Longrightarrow> (\<forall>k r. table st' k = Some r \<longrightarrow> 1 \<le> visited_time r)"
proof (induction n arbitrary: b st p st')
  case 0
  then show ?case by simp
next
  case (Suc n)
  from Suc.prems(1) show ?case
  proof (cases rule: visit_Suc_cases)
    case absent
    with Suc.prems(2) show ?thesis by auto
  next
    case (terminal r1)
    with Suc.prems(2) show ?thesis
      by (auto simp: update_record_apply split: if_splits)
  next
    case (descend r0 nb st2 cp st3 r1)
    have "\<forall>k r. table st2 k = Some r \<longrightarrow> 1 \<le> visited_time r"
      using pass_or_play_table [OF descend(3)] Suc.prems(2)
      by (auto simp: update_record_apply split: if_splits)
    from Suc.IH [OF descend(4) this] descend(5,7) show ?thesis
      by (auto simp: update_record_apply split: if_splits)
  qed
qed

section \<open>The choice among unvisited children (C1)\<close>

text \<open>
  C1, as stated: with a non-empty list \<open>unknown\<close> of moves whose child record is absent,
  \<^verbatim>\<open>MaxUcbChild\<close> returns \<open>unknown[worker_id mod |unknown|]\<close>. This fails: with eight
  threads, worker 5 and the four unknown moves \<open>[0, 1, 2, 3]\<close> of the empty demo board the
  function returns move 0, and \<open>unknown[5 mod 4]\<close> is move 1.
\<close>

theorem max_ucb_child_unknown_counterexample:
  "MaxUcbChild demo_ops (UctPlayer 1 10 8) [] 5 initial_state
     = Inr (0, \<lparr>table = Map.empty, mc_game_count = 0,
                events = [MutexUnlock, ReadChildren [], MutexLock]\<rparr>)
   \<and> unknown_children demo_ops (table initial_state) [] = [0, 1, 2, 3]
   \<and> unknown_children demo_ops (table initial_state) []
       ! nat (5 mod int (length (unknown_children demo_ops (table initial_state) []))) = 1"
  by (simp add: demo_defs MaxUcbChild_def max_ucb_child_body_def get_child_def emit_def
      index_in_range_def unknown_children_def)

text \<open>
  C1, amended: with a non-empty list \<open>unknown\<close> (in the order of the parent's playable
  indexes) and a thread count other than 0, \<^verbatim>\<open>MaxUcbChild\<close> returns \<open>unknown[i]\<close> for
  \<open>i = worker_id rem thread_count\<close> when \<open>0 \<le> i < |unknown|\<close>, and \<open>unknown[0]\<close> otherwise;
  the table is left as it was.
\<close>

theorem max_ucb_child_unknown_choice:
  assumes "unknown_children ops (table st) b \<noteq> []" and "thread_count player \<noteq> 0"
  shows "\<exists>st'. MaxUcbChild ops player b tid st =
           Inr (unknown_children ops (table st) b !
                  (if index_in_range (tid smod thread_count player)
                        (unknown_children ops (table st) b)
                   then nat (tid smod thread_count player) else 0), st')
         \<and> table st' = table st"
  by (simp add: MaxUcbChild_unknown [OF assms])

text \<open>The amended C1 on the demo board: worker 5 of 8 gets the first unknown move.\<close>

theorem max_ucb_child_unknown_choice_witness:
  "unknown_children demo_ops (table initial_state) [] \<noteq> []
   \<and> thread_count (UctPlayer 1 10 8) \<noteq> 0
   \<and> (\<exists>st'. MaxUcbChild demo_ops (UctPlayer 1 10 8) [] 5 initial_state = Inr (0, st')
        \<and> table st' = table initial_state)"
proof -
  have u: "unknown_children demo_ops (table initial_state) [] = [0, 1, 2, 3]"
    by (simp add: unknown_children_def demo_defs get_child_def)
  have t: "thread_count (UctPlayer 1 10 8) \<noteq> 0"
    by (simp add: UctPlayer_def)
  have n: "unknown_children demo_ops (table (initial_state :: demo_board search_state)) [] \<noteq> []"
    by (simp add: u)
  show ?thesis
    using max_ucb_child_unknown_choice [OF n t, of 5] t
    by (simp add: u index_in_range_def UctPlayer_def)
qed

section \<open>A present record on a finished board (C2)\<close>

text \<open>
  C2, as stated: on a board whose record is present and which is terminal, the call
  leaves the visits of the record unchanged. This fails: line 229 runs on this branch
  too, and the record of the finished demo position \<open>[1, 0]\<close> goes from 1 visit to 2.
\<close>

theorem visit_terminal_counterexample:
  "(case ModifyAverageProfitAndReturnNewProfit (Suc 0) demo_ops (UctPlayer 1 10 1) 0 [1, 0]
           demo_terminal_state of
      Inl e \<Rightarrow> None
    | Inr (p, st') \<Rightarrow> map_option visited_time (table st' [1, 0])) = Some 2
   \<and> map_option visited_time (table demo_terminal_state [1, 0]) = Some 1"
  by (simp add: demo_terminal_state_def demo_defs prim_defs
      ModifyAverageProfitAndReturnNewProfit.simps(2))

text \<open>
  C2, amended: on a board whose record \<open>r\<close> is present and which is terminal, a call with
  a positive budget returns the stored average profit of \<open>r\<close>, increments the playout
  counter by one, leaves the average profit of the record and every other record
  unchanged, increments the visits of the record by one and leaves its \<open>in_search\<close>
  flag cleared.
\<close>

theorem visit_terminal_present:
  assumes "table st b = Some r" and "is_end ops b"
  shows "\<exists>st'. ModifyAverageProfitAndReturnNewProfit (Suc n) ops pl tid b st
                 = Inr (average_profit r, st')
         \<and> mc_game_count st' = mc_game_count st + 1
         \<and> table st' = (table st)(b \<mapsto> r\<lparr>visited_time := visited_time r + 1,
                                            is_in_search := False\<rparr>)"
  by (auto simp: visit_terminal [OF assms] update_record_apply assms(1) fun_eq_iff)

text \<open>The amended C2 on the finished demo position \<open>[1, 0]\<close>.\<close>

theorem visit_terminal_present_witness:
  "table demo_terminal_state [1, 0]
     = Some \<lparr>visited_time = 1, average_profit = 1 / 2, is_in_search = False\<rparr>
   \<and> is_end demo_ops [1, 0]
   \<and> (\<exists>st'. ModifyAverageProfitAndReturnNewProfit (Suc 0) demo_ops (UctPlayer 1 10 1) 0 [1, 0]
              demo_terminal_state = Inr (1 / 2, st')
        \<and> mc_game_count st' = 1
        \<and> table st' [1, 0]
            = Some \<lparr>visited_time = 2, average_profit = 1 / 2, is_in_search = False\<rparr>)"
proof -
  have a: "table demo_terminal_state [1, 0]
             = Some \<lparr>visited_time = 1, average_profit = 1 / 2, is_in_search = False\<rparr>"
    by (simp add: demo_terminal_state_def)
  have b: "is_end demo_ops [1, 0]"
    by (simp add: demo_ops_def)
  obtain st' where
    "ModifyAverageProfitAndReturnNewProfit (Suc 0) demo_ops (UctPlayer 1 10 1) 0 [1, 0]
       demo_terminal_state
     = Inr (average_profit \<lparr>visited_time = 1, average_profit = 1 / 2, is_in_search = False\<rparr>, st')"
    "mc_game_count st' = mc_game_count demo_terminal_state + 1"
    "table st' = (table demo_terminal_state)
       ([1, 0] \<mapsto> \<lparr>visited_time = 1, average_profit = 1 / 2, is_in_search = False\<rparr>
                     \<lparr>visited_time := visited_time
                         \<lparr>visited_time = 1, average_profit = 1 / 2, is_in_search = False\<rparr> + 1,
                       is_in_search := False\<rparr>)"
    using visit_terminal_present [OF a b, of 0 "UctPlayer 1 10 1" 0] by blast
  then show ?thesis
    using a b by (auto simp: demo_terminal_state_def)
qed

section \<open>An absent record (C8)\<close>

text \<open>
  C8: on a board whose record is absent, a call with a positive budget constructs a
  playout with the player's seed, takes as playout board the result of running it when
  the board is not terminal and the board itself otherwise, increments the playout
  counter by one, computes the profit as the region ratio of the playout board for the
  side that moved last on the board (black region over the square of the side length for
  black, one minus that for white), inserts the record with 1 visit, that profit and
  \<open>in_search\<close> false, and returns that profit.
\<close>

theorem visit_absent_record:
  assumes "table st b = None"
  shows "\<exists>st'.
     (let playout_board = (if is_end ops b then b else run_playout ops b (seed pl));
          black_ratio = real_of_int (black_region ops playout_board)
                        / real_of_int (board_len_square ops);
          profit = (if last_force ops b = BLACK_FORCE then black_ratio else 1 - black_ratio);
          node = \<lparr>visited_time = 1, average_profit = profit, is_in_search = False\<rparr>
      in ModifyAverageProfitAndReturnNewProfit (Suc n) ops pl tid b st = Inr (profit, st')
         \<and> mc_game_count st' = mc_game_count st + 1
         \<and> table st' = (table st)(b \<mapsto> node)
         \<and> events st' = [InsertRecord b node, ConstructMonteCarloGame b (seed pl)] @ events st)"
  by (simp add: visit_absent [OF assms] Let_def GetRegionRatio_def Insert_def emit_def
      increment_mc_game_count_def)

text \<open>C8 on the demo position \<open>[2]\<close>, whose playout ends in \<open>[0, 2]\<close>.\<close>

theorem visit_absent_record_witness:
  "table (initial_state :: demo_board search_state) [2] = None
   \<and> (\<exists>st'. ModifyAverageProfitAndReturnNewProfit (Suc 0) demo_ops (UctPlayer 7 10 1) 0 [2]
              initial_state = Inr (1 / 4, st')
        \<and> mc_game_count st' = 1
        \<and> table st' = [[2] \<mapsto> \<lparr>visited_time = 1, average_profit = 1 / 4, is_in_search = False\<rparr>]
        \<and> events st' = [InsertRecord [2] \<lparr>visited_time = 1, average_profit = 1 / 4,
                                            is_in_search = False\<rparr>,
                         ConstructMonteCarloGame [2] 7])"
proof -
  have a: "table (initial_state :: demo_board search_state) [2] = None"
    by (simp add: initial_state_def)
  show ?thesis
    using visit_absent_record [OF a, of demo_ops "UctPlayer 7 10 1" 0 0] a
    by (simp add: demo_defs Let_def)
qed

section \<open>The update of a present record on a board that goes on (C7)\<close>

text \<open>
  C7: on a board whose record is present and which is not terminal, let the descent
  (a pass, or the move of \<^verbatim>\<open>MaxUcbChild\<close>) and the recursive call return, the latter with
  the profit \<open>child_profit\<close>; let \<open>visits\<close> and \<open>avg\<close> be the values of the record when
  the recursive call returns, and \<open>x = 1 - child_profit\<close>. Then the call returns \<open>x\<close>, and
  afterwards the record holds the average profit \<open>(avg * visits + x) / (visits + 1)\<close> and
  \<open>visits + 1\<close> visits (and a cleared \<open>in_search\<close> flag); no other record and not the
  counter changes in this step.
\<close>

theorem visit_update_law:
  assumes "table st b = Some r0" and "\<not> is_end ops b"
    and "pass_or_play_max_ucb_child ops pl b tid (locked_set_is_in_search b True st) = Inr (nb, st2)"
    and "ModifyAverageProfitAndReturnNewProfit n ops pl tid nb st2 = Inr (child_profit, st3)"
  shows "\<exists>r st'. table st3 b = Some r
         \<and> ModifyAverageProfitAndReturnNewProfit (Suc n) ops pl tid b st
             = Inr (1 - child_profit, st')
         \<and> table st' b
             = Some \<lparr>visited_time = visited_time r + 1,
                     average_profit = (average_profit r * real (visited_time r)
                                       + (1 - child_profit)) / (real (visited_time r) + 1),
                     is_in_search = False\<rparr>
         \<and> (\<forall>k. k \<noteq> b \<longrightarrow> table st' k = table st3 k)
         \<and> mc_game_count st' = mc_game_count st3"
proof -
  have "table st2 b = Some (r0\<lparr>is_in_search := True\<rparr>)"
    using pass_or_play_table [OF assms(3)] assms(1) by (simp add: update_record_apply)
  from visit_table_mono [OF assms(4) this] obtain r where r: "table st3 b = Some r"
    by blast
  show ?thesis
    using r assms(3,4)
    by (simp add: visit_descend [OF assms(1,2)] update_record_apply add.commute)
qed

lemma demo_unknown_0:
  "unknown_children demo_ops (table (locked_set_is_in_search [0] True demo_child_state)) [0]
   = [1, 2, 3]"
  by (simp add: unknown_children_def demo_ops_def demo_child_state_def get_child_def
      update_record_apply)

text \<open>
  C7 on the demo position \<open>[0]\<close>: the record \<open>(1, 1/4)\<close> and the sample \<open>1/2\<close> give
  \<open>(2, 3/8)\<close>.
\<close>

theorem visit_update_law_witness:
  "table demo_child_state [0]
     = Some \<lparr>visited_time = 1, average_profit = 1 / 4, is_in_search = False\<rparr>
   \<and> \<not> is_end demo_ops [0]
   \<and> (\<exists>st'. ModifyAverageProfitAndReturnNewProfit (Suc (Suc 0)) demo_ops (UctPlayer 1 10 1) 0 [0]
              demo_child_state = Inr (1 / 2, st')
        \<and> table st' [0]
            = Some \<lparr>visited_time = 2, average_profit = 3 / 8, is_in_search = False\<rparr>)"
proof -
  let ?pl = "UctPlayer 1 10 1"
  let ?st1 = "locked_set_is_in_search [0] True demo_child_state"
  let ?st2 = "emit MutexUnlock (emit (ReadChildren [0]) (emit MutexLock ?st1))"
  have a: "table demo_child_state [0]
             = Some \<lparr>visited_time = 1, average_profit = 1 / 4, is_in_search = False\<rparr>"
    by (simp add: demo_child_state_def)
  have b: "\<not> is_end demo_ops [0]"
    by (simp add: demo_ops_def)
  have tc: "thread_count ?pl \<noteq> 0"
    by (simp add: UctPlayer_def)
  have ne: "unknown_children demo_ops (table ?st1) [0] \<noteq> []"
    using demo_unknown_0 by simp
  have c: "pass_or_play_max_ucb_child demo_ops ?pl [0] 0 ?st1 = Inr ([1, 0], ?st2)"
    using MaxUcbChild_unknown [OF ne tc, of 0] demo_unknown_0
    by (simp add: pass_or_play_max_ucb_child_def index_in_range_def)
       (simp add: demo_ops_def)
  have n: "table ?st2 [1, 0] = None"
    by (simp add: demo_child_state_def update_record_apply)
  obtain st3 where d:
    "ModifyAverageProfitAndReturnNewProfit (Suc 0) demo_ops ?pl 0 [1, 0] ?st2 = Inr (1 / 2, st3)"
    "table st3 = (table ?st2)([1, 0] \<mapsto> \<lparr>visited_time = 1, average_profit = 1 / 2,
                                            is_in_search = False\<rparr>)"
    by (simp add: visit_absent [OF n] GetRegionRatio_def demo_ops_def Let_def)
  from visit_update_law [OF a b c d(1)] d(2) a b show ?thesis
    by (auto simp: update_record_apply demo_child_state_def)
qed

section \<open>The most visited child (C5)\<close>

lemma first_most_visited_here:
  assumes "\<forall>x\<in>set t. child_visits ops tbl b x \<le> child_visits ops tbl b h"
  shows "first_most_visited ops tbl b (h # t) h"
  unfolding first_most_visited_def
  using assms by (intro exI [of _ "[]"] exI [of _ t]) simp

lemma first_most_visited_later:
  assumes "first_most_visited ops tbl b t m"
    and "child_visits ops tbl b h < child_visits ops tbl b m"
  shows "first_most_visited ops tbl b (h # t) m"
proof -
  from assms(1) obtain pre post where d: "t = pre @ m # post"
    "\<forall>x\<in>set pre. child_visits ops tbl b x < child_visits ops tbl b m"
    "\<forall>x\<in>set post. child_visits ops tbl b x \<le> child_visits ops tbl b m"
    unfolding first_most_visited_def by blast
  show ?thesis
    unfolding first_most_visited_def
    using d assms(2) by (intro exI [of _ "h # pre"] exI [of _ post]) simp
qed

lemma best_child_loop_spec:
  assumes "\<forall>m\<in>set ms. get_child ops tbl b m \<noteq> None"
  shows "\<exists>c i. best_child_loop ops tbl b ms (mc, mi) = Inr (c, i) \<and>
     ((\<forall>m\<in>set ms. int (child_visits ops tbl b m) \<le> mc) \<longrightarrow> c = mc \<and> i = mi) \<and>
     (\<not> (\<forall>m\<in>set ms. int (child_visits ops tbl b m) \<le> mc) \<longrightarrow>
        (\<exists>m. i = Some m \<and> c = int (child_visits ops tbl b m) \<and> mc < c
             \<and> first_most_visited ops tbl b ms m))"
  using assms
proof (induction ms arbitrary: mc mi)
  case Nil
  then show ?case by simp
next
  case (Cons h t)
  from Cons.prems obtain r where r: "get_child ops tbl b h = Some r" by auto
  then have vh: "child_visits ops tbl b h = visited_time r"
    by (simp add: child_visits_def)
  from Cons.prems have known: "\<forall>m\<in>set t. get_child ops tbl b m \<noteq> None" by simp
  show ?case
  proof (cases "int (visited_time r) > mc")
    case True
    from Cons.IH [OF known, of "int (visited_time r)" "Some h"]
    obtain c i where ci: "best_child_loop ops tbl b t (int (visited_time r), Some h) = Inr (c, i)"
      and keep: "(\<forall>m\<in>set t. int (child_visits ops tbl b m) \<le> int (visited_time r))
                 \<Longrightarrow> c = int (visited_time r) \<and> i = Some h"
      and upd: "\<not> (\<forall>m\<in>set t. int (child_visits ops tbl b m) \<le> int (visited_time r))
                 \<Longrightarrow> \<exists>m. i = Some m \<and> c = int (child_visits ops tbl b m)
                        \<and> int (visited_time r) < c \<and> first_most_visited ops tbl b t m"
      by blast
    have run: "best_child_loop ops tbl b (h # t) (mc, mi) = Inr (c, i)"
      using r True ci by simp
    have notall: "\<not> (\<forall>m\<in>set (h # t). int (child_visits ops tbl b m) \<le> mc)"
      using True vh by auto
    have "\<exists>m. i = Some m \<and> c = int (child_visits ops tbl b m) \<and> mc < c
             \<and> first_most_visited ops tbl b (h # t) m"
    proof (cases "\<forall>m\<in>set t. int (child_visits ops tbl b m) \<le> int (visited_time r)")
      case all: True
      from keep [OF all] have "c = int (visited_time r)" "i = Some h" by auto
      moreover have "first_most_visited ops tbl b (h # t) h"
        using all vh by (intro first_most_visited_here) auto
      ultimately show ?thesis using True vh by auto
    next
      case nall: False
      from upd [OF nall] obtain m where m: "i = Some m" "c = int (child_visits ops tbl b m)"
        "int (visited_time r) < c" "first_most_visited ops tbl b t m" by blast
      have "first_most_visited ops tbl b (h # t) m"
        using m vh by (intro first_most_visited_later) auto
      with m True show ?thesis by auto
    qed
    with run notall show ?thesis by blast
  next
    case False
    from Cons.IH [OF known, of mc mi]
    obtain c i where ci: "best_child_loop ops tbl b t (mc, mi) = Inr (c, i)"
      and keep: "(\<forall>m\<in>set t. int (child_visits ops tbl b m) \<le> mc) \<Longrightarrow> c = mc \<and> i = mi"
      and upd: "\<not> (\<forall>m\<in>set t. int (child_visits ops tbl b m) \<le> mc)
                 \<Longrightarrow> \<exists>m. i = Some m \<and> c = int (child_visits ops tbl b m)
                        \<and> mc < c \<and> first_most_visited ops tbl b t m"
      by blast
    have run: "best_child_loop ops tbl b (h # t) (mc, mi) = Inr (c, i)"
      using r False ci by simp
    have hle: "int (child_visits ops tbl b h) \<le> mc"
      using False vh by simp
    show ?thesis
    proof (cases "\<forall>m\<in>set t. int (child_visits ops tbl b m) \<le> mc")
      case all: True
      from keep [OF all] hle all run show ?thesis by auto
    next
      case nall: False
      from upd [OF nall] obtain m where m: "i = Some m" "c = int (child_visits ops tbl b m)"
        "mc < c" "first_most_visited ops tbl b t m" by blast
      have "first_most_visited ops tbl b (h # t) m"
        using m hle by (intro first_most_visited_later) auto
      moreover have "\<not> (\<forall>m\<in>set (h # t). int (child_visits ops tbl b m) \<le> mc)"
        using nall by auto
      ultimately show ?thesis using run m by blast
    qed
  qed
qed

text \<open>
  C5: when the board has a playable index and every playable index has a child record,
  \<^verbatim>\<open>BestChild\<close> returns a playable index \<open>m\<close> such that every index before it in the
  playable order has a child with fewer visits and no index after it has a child with
  more: a legal move of maximal visit count, the first one among ties.
\<close>

theorem best_child_first_most_visited:
  assumes "playable_indexes ops b (next_force ops b) \<noteq> []"
    and "\<forall>m\<in>set (playable_indexes ops b (next_force ops b)). get_child ops tbl b m \<noteq> None"
  shows "\<exists>pre m post. BestChild ops tbl b = Inr m
     \<and> playable_indexes ops b (next_force ops b) = pre @ m # post
     \<and> (\<forall>x\<in>set pre. child_visits ops tbl b x < child_visits ops tbl b m)
     \<and> (\<forall>x\<in>set post. child_visits ops tbl b x \<le> child_visits ops tbl b m)"
proof -
  let ?L = "playable_indexes ops b (next_force ops b)"
  from best_child_loop_spec [OF assms(2), of "- 1" None]
  obtain c i where ci: "best_child_loop ops tbl b ?L (- 1, None) = Inr (c, i)"
    and upd: "\<not> (\<forall>m\<in>set ?L. int (child_visits ops tbl b m) \<le> - 1)
                 \<Longrightarrow> \<exists>m. i = Some m \<and> c = int (child_visits ops tbl b m)
                        \<and> - 1 < c \<and> first_most_visited ops tbl b ?L m"
    by blast
  from assms(1) obtain h t where "?L = h # t" by (cases ?L) auto
  then have "\<not> (\<forall>m\<in>set ?L. int (child_visits ops tbl b m) \<le> - 1)" by auto
  from upd [OF this] obtain m where m: "i = Some m" "first_most_visited ops tbl b ?L m"
    by blast
  have "BestChild ops tbl b = Inr m"
    using ci m(1) by (simp add: BestChild_def Let_def)
  with m(2) show ?thesis
    unfolding first_most_visited_def by blast
qed

lemma demo_root_playable: "playable_indexes demo_ops [] (next_force demo_ops []) = [0, 1, 2, 3]"
  by (simp add: demo_ops_def)

lemma demo_root_children:
  "get_child demo_ops (table demo_root_state) [] 0
     = Some \<lparr>visited_time = 1, average_profit = 1 / 2, is_in_search = True\<rparr>"
  "get_child demo_ops (table demo_root_state) [] 1
     = Some \<lparr>visited_time = 3, average_profit = 1 / 4, is_in_search = False\<rparr>"
  "get_child demo_ops (table demo_root_state) [] 2
     = Some \<lparr>visited_time = 3, average_profit = 1 / 2, is_in_search = False\<rparr>"
  "get_child demo_ops (table demo_root_state) [] 3
     = Some \<lparr>visited_time = 2, average_profit = 3 / 4, is_in_search = False\<rparr>"
  by (simp_all add: get_child_def demo_ops_def demo_root_state_def)

text \<open>
  C5 on the demo root: the children have 1, 3, 3 and 2 visits, and move 1 is returned.
\<close>

theorem best_child_first_most_visited_witness:
  "playable_indexes demo_ops [] (next_force demo_ops []) \<noteq> []
   \<and> get_child demo_ops (table demo_root_state) [] 0 \<noteq> None
   \<and> get_child demo_ops (table demo_root_state) [] 1 \<noteq> None
   \<and> get_child demo_ops (table demo_root_state) [] 2 \<noteq> None
   \<and> get_child demo_ops (table demo_root_state) [] 3 \<noteq> None
   \<and> BestChild demo_ops (table demo_root_state) [] = Inr 1"
proof -
  let ?tbl = "table demo_root_state"
  have ne: "playable_indexes demo_ops [] (next_force demo_ops []) \<noteq> []"
    by (simp add: demo_root_playable)
  have known: "\<forall>m\<in>set (playable_indexes demo_ops [] (next_force demo_ops [])).
                 get_child demo_ops ?tbl [] m \<noteq> None"
    by (simp add: demo_root_playable demo_root_children)
  have v: "child_visits demo_ops ?tbl [] 0 = 1" "child_visits demo_ops ?tbl [] 1 = 3"
    "child_visits demo_ops ?tbl [] 2 = 3" "child_visits demo_ops ?tbl [] 3 = 2"
    by (simp_all add: child_visits_def demo_root_children)
  from best_child_first_most_visited [OF ne known]
  obtain pre m post where d: "BestChild demo_ops ?tbl [] = Inr m"
    "[0, 1, 2, 3] = pre @ m # post"
    "\<forall>x\<in>set pre. child_visits demo_ops ?tbl [] x < child_visits demo_ops ?tbl [] m"
    "\<forall>x\<in>set post. child_visits demo_ops ?tbl [] x \<le> child_visits demo_ops ?tbl [] m"
    unfolding demo_root_playable by blast
  have "m = 1"
    using d(2,3,4) v by (auto simp: Cons_eq_append_conv)
  with d(1) ne show ?thesis
    by (simp add: demo_root_children)
qed

section \<open>The choice among visited children (C6)\<close>


















section \<open>Every root child is visited (C4)\<close>

lemma sint_succ_below:
  fixes c t :: "32 word"
  assumes "c <s t"
  shows "sint (c + 1) = sint c + 1"
proof -
  have "sint c < sint t" using assms by (simp add: word_sless_alt)
  moreover have "sint t < 2 ^ 31" using sint_lt [of t] by simp
  moreover have "- (2 ^ 31) \<le> sint c" using sint_ge [of c] by simp
  ultimately have "- (2 ^ 31) \<le> sint c + 1 \<and> sint c + 1 < 2 ^ 31" by simp
  then show ?thesis
    by (simp add: sint_word_ariths signed_take_bit_int_eq_self)
qed

lemma search_Suc_cases [consumes 1, case_names stop step]:
  assumes "SearchAndModifyNodes (Suc n) ops pl b tid st = Inr st'"
  obtains "\<not> mc_game_count st <s mc_game_count_per_move pl" "st' = st"
  | m st1 p st2 where "mc_game_count st <s mc_game_count_per_move pl"
      "MaxUcbChild ops pl b tid st = Inr (m, st1)"
      "ModifyAverageProfitAndReturnNewProfit n ops pl tid (play ops b m) st1 = Inr (p, st2)"
      "SearchAndModifyNodes n ops pl b tid st2 = Inr st'"
  using assms
  by (auto simp: Let_def split: if_splits sum.splits prod.splits)

declare SearchAndModifyNodes.simps(2) [simp del]

lemma unknown_children_antimono:
  assumes "\<forall>k. tbl k \<noteq> None \<longrightarrow> tbl' k \<noteq> None"
  shows "set (unknown_children ops tbl' b) \<subseteq> set (unknown_children ops tbl b)"
  using assms by (auto simp: unknown_children_def get_child_def)

lemma MaxUcbChild_unknown_mem:
  assumes "unknown_children ops (table st) b \<noteq> []" and "thread_count pl \<noteq> 0"
    and "MaxUcbChild ops pl b tid st = Inr (m, st1)"
  shows "m \<in> set (unknown_children ops (table st) b)"
  using assms(3) assms(1) unfolding MaxUcbChild_unknown [OF assms(1,2)]
  by (auto simp: index_in_range_def)

lemma search_reaches_all_children:
  assumes "thread_count pl \<noteq> 0"
  shows "SearchAndModifyNodes n ops pl root_board tid st = Inr st'
    \<Longrightarrow> \<forall>k r. table st k = Some r \<longrightarrow> 1 \<le> visited_time r
    \<Longrightarrow> unknown_children ops (table st) root_board = []
        \<or> int (card (set (unknown_children ops (table st) root_board)))
            \<le> sint (mc_game_count_per_move pl) - sint (mc_game_count st)
    \<Longrightarrow> unknown_children ops (table st') root_board = []
        \<and> (\<forall>k r. table st' k = Some r \<longrightarrow> 1 \<le> visited_time r)"
proof (induction n arbitrary: st)
  case 0
  then show ?case by simp
next
  case (Suc n)
  let ?U = "\<lambda>s. set (unknown_children ops (table s) root_board)"
  from Suc.prems(1) show ?case
  proof (cases rule: search_Suc_cases)
    case stop
    then have "sint (mc_game_count_per_move pl) - sint (mc_game_count st) \<le> 0"
      by (simp add: word_sless_alt)
    with Suc.prems(3) have "unknown_children ops (table st) root_board = []
        \<or> card (?U st) = 0"
      by linarith
    then have "unknown_children ops (table st) root_board = []"
      by auto
    with stop Suc.prems(2) show ?thesis by simp
  next
    case (step m st1 p st2)
    have t1: "table st1 = table st" and c1: "mc_game_count st1 = mc_game_count st"
      using MaxUcbChild_state [OF step(2)] by simp_all
    have inv1: "\<forall>k r. table st1 k = Some r \<longrightarrow> 1 \<le> visited_time r"
      using Suc.prems(2) t1 by simp
    have inv2: "\<forall>k r. table st2 k = Some r \<longrightarrow> 1 \<le> visited_time r"
      by (rule visit_visits_pos [OF step(3) inv1])
    have mono: "\<forall>k. table st k \<noteq> None \<longrightarrow> table st2 k \<noteq> None"
      using visit_table_mono [OF step(3)] t1 by fastforce
    have sub: "?U st2 \<subseteq> ?U st"
      by (rule unknown_children_antimono [OF mono])
    have c2: "sint (mc_game_count st2) = sint (mc_game_count st) + 1"
      using visit_count [OF step(3)] c1 sint_succ_below [OF step(1)] by simp
    have "unknown_children ops (table st2) root_board = []
        \<or> int (card (?U st2)) \<le> sint (mc_game_count_per_move pl) - sint (mc_game_count st2)"
    proof (cases "unknown_children ops (table st) root_board = []")
      case True
      with sub show ?thesis by simp
    next
      case False
      from MaxUcbChild_unknown_mem [OF False assms step(2)] have m: "m \<in> ?U st" .
      have "table st2 (play ops root_board m) \<noteq> None"
        by (rule visit_present [OF step(3)])
      then have "m \<notin> ?U st2"
        by (simp add: unknown_children_def get_child_def)
      with sub m have "?U st2 \<subset> ?U st" by blast
      then have "card (?U st2) < card (?U st)"
        by (intro psubset_card_mono) simp_all
      moreover from False Suc.prems(3)
      have "int (card (?U st)) \<le> sint (mc_game_count_per_move pl) - sint (mc_game_count st)"
        by simp
      ultimately show ?thesis using c2 by simp
    qed
    from Suc.IH [OF step(4) inv2 this] show ?thesis .
  qed
qed

text \<open>
  C4: let one worker (thread count 1, worker 0) run the loop on a root board with at
  least one playable index, with a target that is at least the number of playable indexes,
  from a counter of 0 and a table whose records all have at least one visit (the empty
  table is one). If the loop finishes, every playable index of the root has a child record
  with at least one visit in the table it leaves.
\<close>

theorem search_visits_every_root_child:
  assumes "thread_count pl = 1"
    and "playable_indexes ops root_board (next_force ops root_board) \<noteq> []"
    and "int (length (playable_indexes ops root_board (next_force ops root_board)))
           \<le> sint (mc_game_count_per_move pl)"
    and "mc_game_count st = 0"
    and "\<forall>k r. table st k = Some r \<longrightarrow> 1 \<le> visited_time r"
    and "SearchAndModifyNodes n ops pl root_board 0 st = Inr st'"
  shows "\<forall>m\<in>set (playable_indexes ops root_board (next_force ops root_board)).
           \<exists>r. get_child ops (table st') root_board m = Some r \<and> 1 \<le> visited_time r"
proof -
  let ?L = "playable_indexes ops root_board (next_force ops root_board)"
  have tc: "thread_count pl \<noteq> 0" using assms(1) by simp
  have "card (set (unknown_children ops (table st) root_board)) \<le> length ?L"
    unfolding unknown_children_def
    by (rule order_trans [OF card_length]) simp
  with assms(3,4) have
    "int (card (set (unknown_children ops (table st) root_board)))
       \<le> sint (mc_game_count_per_move pl) - sint (mc_game_count st)"
    by simp
  with search_reaches_all_children [OF tc assms(6,5)]
  have nomore: "unknown_children ops (table st') root_board = []"
    and inv: "\<forall>k r. table st' k = Some r \<longrightarrow> 1 \<le> visited_time r"
    by simp_all
  show ?thesis
  proof
    fix m assume "m \<in> set ?L"
    with nomore have "get_child ops (table st') root_board m \<noteq> None"
      by (auto simp: unknown_children_def filter_empty_conv)
    then obtain r where r: "get_child ops (table st') root_board m = Some r" by auto
    with inv have "1 \<le> visited_time r" by (simp add: get_child_def)
    with r show "\<exists>r. get_child ops (table st') root_board m = Some r \<and> 1 \<le> visited_time r"
      by simp
  qed
qed

lemma demo_search_run:
  "\<exists>st'. SearchAndModifyNodes (Suc (Suc (Suc (Suc (Suc 0))))) demo_ops (UctPlayer 1 4 1) [] 0
            initial_state = Inr st' \<and> mc_game_count st' = 4"
  by (simp add: SearchAndModifyNodes.simps(2) ModifyAverageProfitAndReturnNewProfit.simps(2)
      demo_defs prim_defs MaxUcbChild_def max_ucb_child_body_def get_child_def
      index_in_range_def GetRegionRatio_def Let_def word_sless_alt)

text \<open>
  C4 on the demo root with target 4: the loop finishes within five rounds and the four
  children have records with at least one visit.
\<close>

theorem search_visits_every_root_child_witness:
  "thread_count (UctPlayer 1 4 1) = 1
   \<and> playable_indexes demo_ops [] (next_force demo_ops []) \<noteq> []
   \<and> int (length (playable_indexes demo_ops [] (next_force demo_ops [])))
       \<le> sint (mc_game_count_per_move (UctPlayer 1 4 1))
   \<and> mc_game_count (initial_state :: demo_board search_state) = 0
   \<and> (\<exists>st'. SearchAndModifyNodes (Suc (Suc (Suc (Suc (Suc 0))))) demo_ops (UctPlayer 1 4 1) [] 0
              initial_state = Inr st'
        \<and> 1 \<le> child_visits demo_ops (table st') [] 0
        \<and> 1 \<le> child_visits demo_ops (table st') [] 1
        \<and> 1 \<le> child_visits demo_ops (table st') [] 2
        \<and> 1 \<le> child_visits demo_ops (table st') [] 3)"
proof -
  let ?pl = "UctPlayer 1 4 1"
  let ?L = "playable_indexes demo_ops [] (next_force demo_ops [])"
  have a: "thread_count ?pl = 1" by (simp add: UctPlayer_def)
  have b: "?L \<noteq> []" by (simp add: demo_root_playable)
  have c: "int (length ?L) \<le> sint (mc_game_count_per_move ?pl)"
    by (simp add: demo_root_playable UctPlayer_def)
  have d: "mc_game_count (initial_state :: demo_board search_state) = 0"
    by (simp add: initial_state_def)
  have e: "\<forall>k r. table (initial_state :: demo_board search_state) k = Some r
             \<longrightarrow> 1 \<le> visited_time r"
    by (simp add: initial_state_def)
  from demo_search_run obtain st' where run:
    "SearchAndModifyNodes (Suc (Suc (Suc (Suc (Suc 0))))) demo_ops ?pl [] 0 initial_state = Inr st'"
    by blast
  from search_visits_every_root_child [OF a b c d e run]
  have "\<forall>m\<in>set [0, 1, 2, 3]. \<exists>r. get_child demo_ops (table st') [] m = Some r
                                     \<and> 1 \<le> visited_time r"
    unfolding demo_root_playable .
  then have "1 \<le> child_visits demo_ops (table st') [] 0"
    "1 \<le> child_visits demo_ops (table st') [] 1"
    "1 \<le> child_visits demo_ops (table st') [] 2"
    "1 \<le> child_visits demo_ops (table st') [] 3"
    by (auto simp: child_visits_def)
  with a b c d run show ?thesis by blast
qed

section \<open>The range of the average profit (C9)\<close>

lemma events_emit [simp]: "events (emit e st) = e # events st"
  by (simp add: emit_def)

lemma events_increment [simp]: "events (increment_mc_game_count st) = events st"
  by (simp add: increment_mc_game_count_def)

lemma events_locked_set [simp]:
  "events (locked_set_is_in_search b v st)
   = MutexUnlock # WriteIsInSearch b v # MutexLock # events st"
  by (simp add: locked_set_is_in_search_def SetIsInSearch_def emit_def)

lemma events_SetVisitedTimes [simp]:
  "events (SetVisitedTimes b v st) = WriteVisitedTimes b v # events st"
  by (simp add: SetVisitedTimes_def)

lemma events_SetAverageProfit [simp]:
  "events (SetAverageProfit b v st) = WriteAverageProfit b v # events st"
  by (simp add: SetAverageProfit_def)

lemma events_Insert [simp]: "events (Insert b r st) = InsertRecord b r # events st"
  by (simp add: Insert_def)

lemma pass_or_play_events:
  assumes "pass_or_play_max_ucb_child ops pl b tid st = Inr (nb, st2)"
  shows "events st2 = events st
         \<or> events st2 = MutexUnlock # ReadChildren b # MutexLock # events st"
  using pass_or_play_state [OF assms] by auto

lemma GetRegionRatio_in_range:
  assumes "region_within_board ops"
  shows "profit_in_range (GetRegionRatio ops b f)"
proof -
  let ?r = "real_of_int (black_region ops b) / real_of_int (board_len_square ops)"
  from assms have n: "0 < real_of_int (board_len_square ops)"
    and lo: "0 \<le> real_of_int (black_region ops b)"
    and hi: "real_of_int (black_region ops b) \<le> real_of_int (board_len_square ops)"
    by (simp_all add: region_within_board_def)
  have "0 \<le> ?r" using n lo by simp
  moreover have "?r \<le> 1" using n hi by simp
  ultimately show ?thesis
    by (simp add: GetRegionRatio_def Let_def profit_in_range_def)
qed

lemma running_average_in_range:
  assumes "profit_in_range a" and "profit_in_range x"
  shows "profit_in_range ((a * real v + x) / real (v + 1))"
proof -
  from assms have a: "0 \<le> a" "a \<le> 1" and x: "0 \<le> x" "x \<le> 1"
    by (simp_all add: profit_in_range_def)
  have "a * real v \<le> 1 * real v"
    by (rule mult_right_mono) (use a in simp_all)
  with x have up: "a * real v + x \<le> real (v + 1)" by simp
  have lo: "0 \<le> a * real v + x" using a x by simp
  show ?thesis
    using up lo by (simp add: profit_in_range_def)
qed

lemma visit_profits_in_range:
  assumes "region_within_board ops"
  shows "ModifyAverageProfitAndReturnNewProfit n ops pl tid b st = Inr (p, st')
    \<Longrightarrow> profits_in_range st
    \<Longrightarrow> profit_in_range p \<and> profits_in_range st'"
proof (induction n arbitrary: b st p st')
  case 0
  then show ?case by simp
next
  case (Suc n)
  from Suc.prems(1) show ?case
  proof (cases rule: visit_Suc_cases)
    case absent
    have "profit_in_range p"
      unfolding absent(2) by (rule GetRegionRatio_in_range [OF assms])
    with absent(3) Suc.prems(2) show ?thesis
      by (auto simp: profits_in_range_def)
  next
    case (terminal r)
    with Suc.prems(2) show ?thesis
      by (auto simp: profits_in_range_def update_record_apply split: if_splits)
  next
    case (descend r0 nb st2 cp st3 r)
    have "profits_in_range st2"
      using pass_or_play_table [OF descend(3)] pass_or_play_events [OF descend(3)] Suc.prems(2)
      by (auto simp: profits_in_range_def update_record_apply split: if_splits)
    from Suc.IH [OF descend(4) this] have cp: "profit_in_range cp" and j3: "profits_in_range st3"
      by simp_all
    from cp have p: "profit_in_range p"
      by (simp add: descend(6) profit_in_range_def)
    from j3 descend(5) have "profit_in_range (average_profit r)"
      by (simp add: profits_in_range_def)
    from running_average_in_range [OF this p [unfolded descend(6)], of "visited_time r"]
    have "profit_in_range ((average_profit r * real (visited_time r) + (1 - cp))
                            / real (visited_time r + 1))" .
    with j3 p descend(7) show ?thesis
      by (auto simp: profits_in_range_def update_record_apply split: if_splits)
  qed
qed

text \<open>
  One worker that runs alone keeps the range. Let black's region of every board lie
  between 0 and the (positive) square of the side length. If every average profit in the
  table lies in \<open>[0, 1]\<close> when the loop of the worker starts, and every average profit
  stored before did, then the same holds when the loop has finished, for the table and for
  every record inserted and every average written on the way.
\<close>

lemma search_profits_in_range:
  assumes "region_within_board ops"
  shows "SearchAndModifyNodes n ops pl root_board tid st = Inr st'
    \<Longrightarrow> profits_in_range st
    \<Longrightarrow> profits_in_range st'"
proof (induction n arbitrary: st)
  case 0
  then show ?case by simp
next
  case (Suc n)
  from Suc.prems(1) show ?case
  proof (cases rule: search_Suc_cases)
    case stop
    with Suc.prems(2) show ?thesis by simp
  next
    case (step m st1 p st2)
    have "profits_in_range st1"
      using MaxUcbChild_state [OF step(2)] Suc.prems(2)
      by (simp add: profits_in_range_def)
    from visit_profits_in_range [OF assms step(3) this] have "profits_in_range st2" by simp
    from Suc.IH [OF step(4) this] show ?thesis .
  qed
qed

text \<open>
  C9: every average profit in the table lies in \<open>[0, 1]\<close> at every point of a search.
  With several workers the code does not ensure this. The update of lines 222 to 229
  reads the average once and the visits twice and then writes the average, all after the
  mutex was released in line 205, so the update of another worker can come between the
  reads; an average of \<open>1\<close> with \<open>v + 1\<close> visits read for the numerator, \<open>v\<close> visits
  read for the denominator and a sample \<open>x > 0\<close> is stored as \<open>1 + x / (v + 1)\<close>. The
  statement below is the part of such a run that one worker contributes: worker 0 of 2
  updates the record of the demo position \<open>[0]\<close> from \<open>(1, 1/4)\<close> with the sample \<open>1/2\<close>,
  and the new average \<open>3/8\<close> is written while the worker does not hold the mutex.
\<close>

theorem average_written_outside_mutex:
  "(case ModifyAverageProfitAndReturnNewProfit (Suc (Suc 0)) demo_ops (UctPlayer 1 10 2) 0 [0]
           demo_child_state of
      Inl e \<Rightarrow> []
    | Inr (p, st') \<Rightarrow> unlocked_average_writes (events st')) = [([0], 3 / 8)]"
  by (simp add: ModifyAverageProfitAndReturnNewProfit.simps(2) demo_defs prim_defs
      demo_child_state_def pass_or_play_max_ucb_child_def MaxUcbChild_def
      max_ucb_child_body_def get_child_def index_in_range_def GetRegionRatio_def Let_def)

section \<open>The seed of the playouts (C10)\<close>

lemma seeds_fixed_Cons:
  "seeds_fixed s (e # es) \<longleftrightarrow>
     (case e of ConstructMonteCarloGame b s' \<Rightarrow> s' = s | _ \<Rightarrow> True) \<and> seeds_fixed s es"
  by (auto simp: seeds_fixed_def split: event.splits)

lemma visit_seeds_fixed:
  "ModifyAverageProfitAndReturnNewProfit n ops pl tid b st = Inr (p, st')
    \<Longrightarrow> seeds_fixed (seed pl) (events st)
    \<Longrightarrow> seeds_fixed (seed pl) (events st')"
proof (induction n arbitrary: b st p st')
  case 0
  then show ?case by simp
next
  case (Suc n)
  from Suc.prems(1) show ?case
  proof (cases rule: visit_Suc_cases)
    case absent
    with Suc.prems(2) show ?thesis by (simp add: seeds_fixed_Cons)
  next
    case (terminal r)
    with Suc.prems(2) show ?thesis by (simp add: seeds_fixed_Cons)
  next
    case (descend r0 nb st2 cp st3 r)
    have "seeds_fixed (seed pl) (events st2)"
      using pass_or_play_events [OF descend(3)] Suc.prems(2)
      by (auto simp: seeds_fixed_Cons)
    from Suc.IH [OF descend(4) this] descend(7) show ?thesis
      by (simp add: seeds_fixed_Cons)
  qed
qed

lemma search_seeds_fixed:
  "SearchAndModifyNodes n ops pl root_board tid st = Inr st'
    \<Longrightarrow> seeds_fixed (seed pl) (events st)
    \<Longrightarrow> seeds_fixed (seed pl) (events st')"
proof (induction n arbitrary: st)
  case 0
  then show ?case by simp
next
  case (Suc n)
  from Suc.prems(1) show ?case
  proof (cases rule: search_Suc_cases)
    case stop
    with Suc.prems(2) show ?thesis by simp
  next
    case (step m st1 p st2)
    have "seeds_fixed (seed pl) (events st1)"
      using MaxUcbChild_state [OF step(2)] Suc.prems(2)
      by (simp add: seeds_fixed_Cons)
    from visit_seeds_fixed [OF step(3) this] have "seeds_fixed (seed pl) (events st2)" .
    from Suc.IH [OF step(4) this] show ?thesis .
  qed
qed

text \<open>
  C10: for a player constructed with the seed \<open>s\<close>, every playout that the loop of a
  worker constructs (for any worker index and in any round) is constructed with \<open>s\<close>;
  so two playouts of the search that start from equal boards have the same seed, and (the
  playout engine being a function of board and seed) the same result.
\<close>

theorem search_playouts_share_seed:
  assumes "SearchAndModifyNodes n ops (UctPlayer s target threads) root_board tid st = Inr st'"
    and "seeds_fixed s (events st)"
  shows "seeds_fixed s (events st')
     \<and> (\<forall>b1 s1 b2 s2. ConstructMonteCarloGame b1 s1 \<in> set (events st')
            \<and> ConstructMonteCarloGame b2 s2 \<in> set (events st') \<and> b1 = b2
          \<longrightarrow> s1 = s2 \<and> run_playout ops b1 s1 = run_playout ops b2 s2)"
proof -
  have "seed (UctPlayer s target threads) = s" by (simp add: UctPlayer_def)
  with search_seeds_fixed [OF assms(1)] assms(2)
  have f: "seeds_fixed s (events st')" by simp
  then show ?thesis
    unfolding seeds_fixed_def by metis
qed

lemma demo_search_events:
  "\<exists>st'. SearchAndModifyNodes (Suc (Suc (Suc 0))) demo_ops (UctPlayer 7 2 2) [] 1
            initial_state = Inr st'
     \<and> ConstructMonteCarloGame [1] 7 \<in> set (events st')
     \<and> ConstructMonteCarloGame [2] 7 \<in> set (events st')"
  by (simp add: SearchAndModifyNodes.simps(2) ModifyAverageProfitAndReturnNewProfit.simps(2)
      demo_defs prim_defs MaxUcbChild_def max_ucb_child_body_def get_child_def
      index_in_range_def GetRegionRatio_def Let_def word_sless_alt smod_int_alt_def)

text \<open>
  C10 on the demo board: worker 1 of 2 with seed 7 constructs playouts from \<open>[1]\<close>
  and \<open>[2]\<close>, both with seed 7.
\<close>

theorem search_playouts_share_seed_witness:
  "seeds_fixed 7 (events (initial_state :: demo_board search_state))
   \<and> (\<exists>st'. SearchAndModifyNodes (Suc (Suc (Suc 0))) demo_ops (UctPlayer 7 2 2) [] 1
              initial_state = Inr st'
        \<and> ConstructMonteCarloGame [1] 7 \<in> set (events st')
        \<and> ConstructMonteCarloGame [2] 7 \<in> set (events st')
        \<and> seeds_fixed 7 (events st'))"
proof -
  have a: "seeds_fixed 7 (events (initial_state :: demo_board search_state))"
    by (simp add: seeds_fixed_def initial_state_def)
  from demo_search_events obtain st' where run:
    "SearchAndModifyNodes (Suc (Suc (Suc 0))) demo_ops (UctPlayer 7 2 2) [] 1 initial_state
       = Inr st'"
    "ConstructMonteCarloGame [1] 7 \<in> set (events st')"
    "ConstructMonteCarloGame [2] 7 \<in> set (events st')"
    by blast
  from search_playouts_share_seed [OF run(1) a] have "seeds_fixed 7 (events st')"
    by simp
  with a run show ?thesis by blast
qed

section \<open>The mutex (C3)\<close>

text \<open>
  C3: during a search with several workers, every insertion into the table and every
  write to a field of a record is performed while the worker holds the mutex. The code
  takes the mutex for the writes of \<open>in_search\<close> (lines 203 to 205 and 232 to 235) and
  for the reads in \<^verbatim>\<open>MaxUcbChild\<close>, but not for the insertion (line 201) and the writes of
  average profit and visits (lines 226 and 229) of the same records. The statement below
  evaluates two calls of worker 3 of 4 on the demo board: on the absent position \<open>[2]\<close>
  the record is inserted with the mutex not held, and on the finished position \<open>[1, 0]\<close>
  the visits are written between the two locked writes of \<open>in_search\<close>, with the mutex
  not held (the events are listed newest first).
\<close>

theorem visit_writes_outside_mutex:
  "(case ModifyAverageProfitAndReturnNewProfit (Suc 0) demo_ops (UctPlayer 1 10 4) 3 [2]
           initial_state of
      Inl e \<Rightarrow> []
    | Inr (p, st') \<Rightarrow> events st')
     = [InsertRecord [2] \<lparr>visited_time = 1, average_profit = 1 / 4, is_in_search = False\<rparr>,
        ConstructMonteCarloGame [2] 1]
   \<and> \<not> all_mutations_locked
         [InsertRecord [2] \<lparr>visited_time = 1, average_profit = 1 / 4, is_in_search = False\<rparr>,
          ConstructMonteCarloGame [2] 1 :: demo_board event]
   \<and> (case ModifyAverageProfitAndReturnNewProfit (Suc 0) demo_ops (UctPlayer 1 10 4) 3 [1, 0]
             demo_terminal_state of
        Inl e \<Rightarrow> []
      | Inr (p, st') \<Rightarrow> events st')
       = [MutexUnlock, WriteIsInSearch [1, 0] False, MutexLock, WriteVisitedTimes [1, 0] 2,
          MutexUnlock, WriteIsInSearch [1, 0] True, MutexLock]
   \<and> \<not> all_mutations_locked
         [MutexUnlock, WriteIsInSearch [1, 0] False, MutexLock, WriteVisitedTimes [1, 0] 2,
          MutexUnlock, WriteIsInSearch [1, 0] True, MutexLock :: demo_board event]"
  by (simp add: ModifyAverageProfitAndReturnNewProfit.simps(2) demo_defs prim_defs
      demo_terminal_state_def GetRegionRatio_def Let_def)

end
